theory Spec2Isabelle
  imports Main "HOL-Library.Word" "HOL-Library.Multiset" "HOL-Library.Product_Lexorder"
begin

text \<open>
  The search page of OpenORF: the highlighter \<open>highlightText\<close>, the transcript parser
  \<open>parseSubtitles\<close>, the snippet grouper \<open>getMatchingSubtitles\<close> with \<open>createChunk\<close>,
  and \<open>MainPage.search\<close>, embedded as functions, and the properties of the search and
  snippet-extraction engine that hold of them.
\<close>

section \<open>JavaScript strings and the built-ins the page uses\<close>

text \<open>
  A JavaScript string is a sequence of UTF-16 code units; \<open>length\<close>, \<open>indexOf\<close> and
  \<open>slice\<close> all count code units.
\<close>

type_synonym jsstring = "16 word list"

definition ascii :: "string \<Rightarrow> jsstring" where
  "ascii s = map (\<lambda>c. of_char c) s"

text \<open>
  \<open>String.prototype.slice(from, to)\<close> and \<open>Array.prototype.slice(from, to)\<close> for
  non-negative integer arguments: both bounds are clamped to the length, and an empty
  result is returned when the clamped bounds cross.
\<close>

definition slice_js :: "'a list \<Rightarrow> nat \<Rightarrow> nat \<Rightarrow> 'a list" where
  "slice_js s from to =
     (let len = length s; f = min from len; t = min to len
      in take (t - f) (drop f s))"

definition sliceFrom :: "'a list \<Rightarrow> nat \<Rightarrow> 'a list" where
  "sliceFrom s from = drop (min from (length s)) s"

text \<open>
  \<open>String.prototype.indexOf(searchString, position)\<close>: the search starts at
  \<open>min(position, length)\<close> and tries every index \<open>i\<close> with
  \<open>i + searchString.length \<le> length\<close> in ascending order; \<open>None\<close> stands for \<open>-1\<close>.
  An empty search string is found at the start index itself.
\<close>

definition indexOf :: "jsstring \<Rightarrow> jsstring \<Rightarrow> nat \<Rightarrow> nat option" where
  "indexOf s searchString position =
     (let len = length s; start = min position len
      in List.find (\<lambda>i. take (length searchString) (drop i s) = searchString)
           [start ..< Suc len - length searchString])"

text \<open>\<open>String.prototype.includes(searchString)\<close>.\<close>

definition includes_str :: "jsstring \<Rightarrow> jsstring \<Rightarrow> bool" where
  "includes_str s searchString = (indexOf s searchString 0 \<noteq> None)"

text \<open>
  \<open>String.prototype.split(separator)\<close> for a non-empty separator string: the text is cut
  at every occurrence of the separator, scanning left to right. (The page only splits on
  a line feed and on two line feeds; with an empty separator JavaScript splits into single
  code units, which this definition does not model.)
\<close>

function splitFrom :: "jsstring \<Rightarrow> jsstring \<Rightarrow> jsstring \<Rightarrow> jsstring list" where
  "splitFrom sep cur s =
     (if s = [] then [cur]
      else if sep \<noteq> [] \<and> take (length sep) s = sep
           then cur # splitFrom sep [] (drop (length sep) s)
           else splitFrom sep (cur @ [hd s]) (tl s))"
  by pat_completeness auto
termination
  by (relation "measure (\<lambda>(sep, cur, s). length s)") auto

definition split :: "jsstring \<Rightarrow> jsstring \<Rightarrow> jsstring list" where
  "split s sep = splitFrom sep [] s"

text \<open>\<open>Array.prototype.join(separator)\<close> on an array of strings.\<close>

fun join :: "jsstring \<Rightarrow> jsstring list \<Rightarrow> jsstring" where
  "join sep [] = []"
| "join sep [x] = x"
| "join sep (x # y # ys) = x @ sep @ join sep (y # ys)"

text \<open>
  \<open>String.prototype.toLowerCase\<close> is a built-in that applies the Unicode case mappings,
  including the unconditional ones of SpecialCasing.txt; every function below that calls
  it takes it as the parameter \<open>toLowerCase\<close>, so the general theorems hold for whatever
  the engine computes. For evaluation at concrete inputs, \<open>toLowerCaseLatin\<close> is the
  built-in restricted to texts over U+0000..U+00FF and U+0130: the letters A..Z and the
  Latin-1 capitals are shifted by 32, and U+0130 (capital I with dot above) becomes the
  two code units U+0069 U+0307.
\<close>

definition lowerUnit :: "16 word \<Rightarrow> jsstring" where
  "lowerUnit c =
     (if c = 0x130 then [0x69, 0x307]
      else if (0x41 \<le> c \<and> c \<le> 0x5A) \<or> (0xC0 \<le> c \<and> c \<le> 0xDE \<and> c \<noteq> 0xD7) then [c + 0x20]
      else [c])"

definition toLowerCaseLatin :: "jsstring \<Rightarrow> jsstring" where
  "toLowerCaseLatin s = concat (map lowerUnit s)"

section \<open>The highlighter\<close>

record span =
  start :: nat
  end_pos :: nat

record SearchToken =
  token_value :: jsstring

text \<open>
  The scanning loop of \<open>highlightText\<close> for one token:
  \<^verbatim>\<open>while ((pos = lowerText.indexOf(token.value, pos)) !== -1) { positions.push(...); pos += token.value.length; }\<close>
  The loop need not terminate, so it is a partial function; \<open>None\<close> means that the
  loop is never left.
\<close>

partial_function (option) findPositions ::
  "jsstring \<Rightarrow> jsstring \<Rightarrow> nat \<Rightarrow> span list \<Rightarrow> span list option" where
  "findPositions lowerText tok pos positions =
     (case indexOf lowerText tok pos of
        None \<Rightarrow> Some positions
      | Some p \<Rightarrow>
          findPositions lowerText tok (p + length tok)
            (positions @ [\<lparr>start = p, end_pos = p + length tok\<rparr>]))"

text \<open>
  \<open>tokens.flatMap(...)\<close> runs the loop once per token, in order; the stable
  \<open>sort((a, b) => a.start - b.start)\<close> orders the spans by start.
\<close>

definition findMatches :: "jsstring \<Rightarrow> SearchToken list \<Rightarrow> span list option" where
  "findMatches lowerText tokens =
     map_option (\<lambda>pss. sort_key start (concat pss))
       (those (map (\<lambda>token. findPositions lowerText (token_value token) 0 []) tokens))"

text \<open>
  The reducer that merges overlapping matches. The source updates \<open>last.end\<close> in place;
  \<open>last\<close> is the final element of the accumulator and no other reference to it is read
  afterwards, so the update is a replacement of the accumulator's last element.
\<close>

definition mergeStep :: "span list \<Rightarrow> span \<Rightarrow> span list" where
  "mergeStep acc match =
     (if acc \<noteq> [] \<and> start match \<le> end_pos (last acc)
      then butlast acc @ [(last acc)\<lparr>end_pos := max (end_pos (last acc)) (end_pos match)\<rparr>]
      else acc @ [match])"

definition mergeMatches :: "span list \<Rightarrow> span list" where
  "mergeMatches matches = foldl mergeStep [] matches"

definition mergeSpans :: "span list \<Rightarrow> span list" where
  "mergeSpans spans = mergeMatches (sort_key start spans)"

text \<open>
  The pieces pushed onto \<open>chunks\<close>: a raw slice of the text, or a slice wrapped in the
  marker. \<open>render\<close> is the string that is pushed, \<open>content\<close> the slice it was made from.
\<close>

datatype chunk = Raw jsstring | Mark jsstring

fun content :: "chunk \<Rightarrow> jsstring" where
  "content (Raw s) = s"
| "content (Mark s) = s"

fun render :: "chunk \<Rightarrow> jsstring" where
  "render (Raw s) = s"
| "render (Mark s) = ascii ''<mark>'' @ s @ ascii ''</mark>''"

definition buildStep :: "jsstring \<Rightarrow> chunk list \<times> nat \<Rightarrow> span \<Rightarrow> chunk list \<times> nat" where
  "buildStep text st match =
     (case st of (chunks, lastIndex) \<Rightarrow>
        (chunks @ [Raw (slice_js text lastIndex (start match)),
                   Mark (slice_js text (start match) (end_pos match))],
         end_pos match))"

definition buildChunks :: "jsstring \<Rightarrow> span list \<Rightarrow> chunk list" where
  "buildChunks text mergedMatches =
     (case foldl (buildStep text) ([], 0) mergedMatches of
        (chunks, lastIndex) \<Rightarrow> chunks @ [Raw (sliceFrom text lastIndex)])"

text \<open>
  \<open>highlightChunks\<close> is the content of \<open>chunks\<close> when \<open>highlightText\<close> joins it; the early
  return for an empty token list hands back the text itself, a single raw piece.
\<close>

definition highlightChunks ::
  "(jsstring \<Rightarrow> jsstring) \<Rightarrow> jsstring \<Rightarrow> SearchToken list \<Rightarrow> chunk list option" where
  "highlightChunks toLowerCase text tokens =
     (if tokens = [] then Some [Raw text]
      else map_option (\<lambda>matches. buildChunks text (mergeMatches matches))
             (findMatches (toLowerCase text) tokens))"

definition highlightText ::
  "(jsstring \<Rightarrow> jsstring) \<Rightarrow> jsstring \<Rightarrow> SearchToken list \<Rightarrow> jsstring option" where
  "highlightText toLowerCase text tokens =
     map_option (\<lambda>chunks. concat (map render chunks)) (highlightChunks toLowerCase text tokens)"

declare findPositions.simps [code]

section \<open>Transcript cues and snippet windows\<close>

record ParsedSubtitle =
  index :: nat
  time :: jsstring
  sub_text :: jsstring

text \<open>
  One block of the transcript, as the callback of \<open>map\<close> in \<open>parseSubtitles\<close> treats it;
  \<open>None\<close> is the \<open>null\<close> returned for a block with fewer than three lines, and \<open>idx\<close> is
  the callback's second argument, the position of the block in the array being mapped.
\<close>

definition parseBlock :: "jsstring \<Rightarrow> nat \<Rightarrow> ParsedSubtitle option" where
  "parseBlock block idx =
     (let lines = split block (ascii ''\<newline>'')
      in if length lines < 3 then None
         else Some \<lparr>index = idx, time = lines ! 1,
                    sub_text = join (ascii '' '') (sliceFrom lines 2)\<rparr>)"

text \<open>
  \<open>segment.subtitles\<close> is an optional string; \<open>!this.segment.subtitles\<close> holds when it
  is absent and when it is the empty string.
\<close>

definition parseSubtitles :: "jsstring option \<Rightarrow> ParsedSubtitle list" where
  "parseSubtitles subtitles =
     (case subtitles of
        None \<Rightarrow> []
      | Some raw \<Rightarrow>
          if raw = [] then []
          else let blocks = sliceFrom (split raw (ascii ''\<newline>\<newline>'')) 1
               in map the (filter (\<lambda>sub. sub \<noteq> None)
                    (map (\<lambda>(block, idx). parseBlock block idx)
                       (zip blocks [0 ..< length blocks]))))"

record window =
  matches :: "ParsedSubtitle list"
  context_cues :: "ParsedSubtitle list"

text \<open>
  \<open>createChunk\<close>. In the source an empty \<open>matchIndices\<close> or an index outside
  \<open>subtitles\<close> reads \<open>undefined\<close>; \<open>getMatchingSubtitles\<close> never calls it that way, and
  the model returns \<open>None\<close> there. \<open>firstMatch - contextSize\<close> may be negative and is
  computed over the integers.
\<close>

definition createChunk :: "ParsedSubtitle list \<Rightarrow> nat list \<Rightarrow> nat \<Rightarrow> window option" where
  "createChunk subtitles matchIndices contextSize =
     (if matchIndices = [] \<or> (\<exists>idx\<in>set matchIndices. length subtitles \<le> idx) then None
      else
        let firstMatch = hd matchIndices;
            lastMatch = last matchIndices;
            startIdx = nat (max 0 (int firstMatch - int contextSize));
            endIdx = min (length subtitles - 1) (lastMatch + contextSize);
            matchSet = set matchIndices;
            contextRange = slice_js subtitles startIdx (endIdx + 1)
        in Some \<lparr>matches = map (\<lambda>idx. subtitles ! idx) matchIndices,
                  context_cues = filter (\<lambda>sub. index sub \<notin> matchSet) contextRange\<rparr>)"

definition matchesAnyToken ::
  "(jsstring \<Rightarrow> jsstring) \<Rightarrow> SearchToken list \<Rightarrow> ParsedSubtitle \<Rightarrow> bool" where
  "matchesAnyToken toLowerCase searchTokens sub =
     list_ex (\<lambda>token. includes_str (toLowerCase (sub_text sub)) (token_value token)) searchTokens"

text \<open>
  The state of the grouping walk: \<open>currentChunkStart\<close> (initially \<open>-1\<close>),
  \<open>currentChunkMatches\<close> and \<open>chunks\<close>. Reading the last element of an empty
  \<open>currentChunkMatches\<close> gives \<open>undefined\<close> in the source, the comparison with it is
  false and control reaches the final branch.
\<close>

type_synonym walk = "int \<times> nat list \<times> window list"

definition contextSize :: nat where
  "contextSize = 5"

definition groupStep :: "ParsedSubtitle list \<Rightarrow> walk \<Rightarrow> nat \<Rightarrow> walk option" where
  "groupStep subtitles st idx =
     (case st of (currentChunkStart, currentChunkMatches, chunks) \<Rightarrow>
        if currentChunkStart = - 1 then Some (int idx, [idx], chunks)
        else if currentChunkMatches \<noteq> [] \<and> idx \<le> last currentChunkMatches + contextSize * 2
             then Some (currentChunkStart, currentChunkMatches @ [idx], chunks)
        else (case createChunk subtitles currentChunkMatches contextSize of
                None \<Rightarrow> None
              | Some c \<Rightarrow> Some (int idx, [idx], chunks @ [c])))"

fun groupWalk :: "ParsedSubtitle list \<Rightarrow> walk \<Rightarrow> nat list \<Rightarrow> walk option" where
  "groupWalk subtitles st [] = Some st"
| "groupWalk subtitles st (idx # rest) =
     (case groupStep subtitles st idx of
        None \<Rightarrow> None
      | Some st' \<Rightarrow> groupWalk subtitles st' rest)"

text \<open>
  The body of \<open>getMatchingSubtitles\<close> after the transcript has been parsed. The set
  \<open>matchingIndices\<close> is filled in ascending order of position and then sorted.
\<close>

definition groupSubtitles ::
  "(jsstring \<Rightarrow> jsstring) \<Rightarrow> ParsedSubtitle list \<Rightarrow> bool \<Rightarrow> SearchToken list \<Rightarrow> window list option"
  where
  "groupSubtitles toLowerCase subtitles showFullTranscript searchTokens =
     (if showFullTranscript then
        Some [\<lparr>matches = (if searchTokens \<noteq> []
                          then filter (matchesAnyToken toLowerCase searchTokens) subtitles
                          else []),
               context_cues = subtitles\<rparr>]
      else if searchTokens = [] then Some []
      else
        let matchingIndices =
              filter (\<lambda>idx. matchesAnyToken toLowerCase searchTokens (subtitles ! idx))
                [0 ..< length subtitles]
        in if matchingIndices = [] then Some []
           else
             (case groupWalk subtitles (- 1, [], []) (sort matchingIndices) of
                None \<Rightarrow> None
              | Some (currentChunkStart, currentChunkMatches, chunks) \<Rightarrow>
                  if currentChunkMatches \<noteq> []
                  then map_option (\<lambda>c. chunks @ [c])
                         (createChunk subtitles currentChunkMatches contextSize)
                  else Some chunks))"

definition getMatchingSubtitles ::
  "(jsstring \<Rightarrow> jsstring) \<Rightarrow> jsstring option \<Rightarrow> bool \<Rightarrow> SearchToken list \<Rightarrow> window list option"
  where
  "getMatchingSubtitles toLowerCase subtitles showFullTranscript searchTokens =
     groupSubtitles toLowerCase (parseSubtitles subtitles) showFullTranscript searchTokens"

section \<open>The search of the main page\<close>

text \<open>
  Of an item only the title is read here. \<open>search_fn\<close> is the imported function
  \<open>search(query, items, subtitles)\<close> of the data layer, which is called for queries of
  three or more characters.
\<close>

record TVItem =
  title :: jsstring
  description :: jsstring

record SearchResult =
  items :: "TVItem list"
  tokens :: "SearchToken list"

record MainPage =
  data :: "TVItem list"
  searchResult :: SearchResult
  subtitles_on :: bool
  query :: jsstring
  selectedBroadcasts :: "jsstring set"

definition search ::
  "(jsstring \<Rightarrow> TVItem list \<Rightarrow> bool \<Rightarrow> SearchResult) \<Rightarrow> MainPage \<Rightarrow> MainPage" where
  "search search_fn this =
     (if length (query this) < 3 then
        let filteredItems =
              (if selectedBroadcasts this \<noteq> {}
               then filter (\<lambda>item. title item \<in> selectedBroadcasts this) (data this)
               else data this)
        in this\<lparr>searchResult := \<lparr>items = filteredItems, tokens = []\<rparr>\<rparr>
      else
        let result = search_fn (query this) (data this) (subtitles_on this);
            filteredItems =
              (if selectedBroadcasts this \<noteq> {}
               then filter (\<lambda>item. title item \<in> selectedBroadcasts this) (items result)
               else items result)
        in this\<lparr>searchResult := \<lparr>items = filteredItems, tokens = tokens result\<rparr>\<rparr>)"

text \<open>
  The input handler stores the trimmed content of the query field and then (after a
  delay that the model leaves out) runs \<open>search\<close>. \<open>String.prototype.trim\<close> removes the
  white space and line terminator code units of ECMAScript from both ends.
\<close>

definition isWhiteSpace :: "16 word \<Rightarrow> bool" where
  "isWhiteSpace c =
     (c \<in> {0x9, 0xA, 0xB, 0xC, 0xD, 0x20, 0xA0, 0x1680, 0x2028, 0x2029, 0x202F, 0x205F,
            0x3000, 0xFEFF}
      \<or> (0x2000 \<le> c \<and> c \<le> 0x200A))"

definition trim :: "jsstring \<Rightarrow> jsstring" where
  "trim s = rev (dropWhile isWhiteSpace (rev (dropWhile isWhiteSpace s)))"

definition handleSearchInput ::
  "(jsstring \<Rightarrow> TVItem list \<Rightarrow> bool \<Rightarrow> SearchResult) \<Rightarrow> jsstring \<Rightarrow> MainPage \<Rightarrow> MainPage"
  where
  "handleSearchInput search_fn input this = search search_fn (this\<lparr>query := trim input\<rparr>)"

section \<open>Notions used to state the properties\<close>

text \<open>
  A span is well formed when it does not end before it starts; a span list is separated
  when each span ends strictly before the next one starts, so that at least one
  character lies between two neighbours.
\<close>

definition wellFormed :: "span \<Rightarrow> bool" where
  "wellFormed sp = (start sp \<le> end_pos sp)"

definition separated :: "span list \<Rightarrow> bool" where
  "separated sps = sorted_wrt (\<lambda>a b. end_pos a < start b) sps"

text \<open>
  One span covers another when it contains it; \<open>chars\<close> is the set of character
  positions of a span; \<open>spanKey\<close> orders spans by start and then by end.
\<close>

definition covers :: "span \<Rightarrow> span \<Rightarrow> bool" where
  "covers m a = (start m \<le> start a \<and> end_pos a \<le> end_pos m)"

definition chars :: "span \<Rightarrow> nat set" where
  "chars sp = {start sp ..< end_pos sp}"

definition spanKey :: "span \<Rightarrow> nat \<times> nat" where
  "spanKey sp = (start sp, end_pos sp)"

text \<open>
  A transcript whose first cue has no identifier line, so that its block has two lines
  only, followed by two cues with identifiers.
\<close>

definition transcriptWithBareCue :: jsstring where
  "transcriptWithBareCue = ascii
     ''WEBVTT\<newline>\<newline>00:01\<newline>Guten Abend\<newline>\<newline>2\<newline>00:03\<newline>Willkommen\<newline>\<newline>3\<newline>00:05\<newline>Das Wetter''"

text \<open>A page that has loaded one item, with the two-character query \<open>zi\<close> and no selection.\<close>

definition pageWithOneItem :: MainPage where
  "pageWithOneItem =
     \<lparr>data = [\<lparr>title = ascii ''ZIB 1'', description = ascii ''Nachrichten''\<rparr>],
      searchResult = \<lparr>items = [], tokens = []\<rparr>,
      subtitles_on = True, query = ascii ''zi'', selectedBroadcasts = {}\<rparr>"

text \<open>
  The grouping as the specification words it: walking the indices, an index extends the
  current (last) group when it is at most \<open>gap\<close> after the last index of that group, and
  starts a new group otherwise. The window of a group covers the positions from
  \<open>first - contextSize\<close> to \<open>last + contextSize\<close>, clamped to the positions of the cue
  sequence: its matches are the cues at the positions of the group, its context the cues
  at the other positions of that range.
\<close>

definition linkStep :: "nat \<Rightarrow> nat list list \<Rightarrow> nat \<Rightarrow> nat list list" where
  "linkStep gap groups idx =
     (if groups \<noteq> [] \<and> idx \<le> last (last groups) + gap
      then butlast groups @ [last groups @ [idx]]
      else groups @ [[idx]])"

definition specGroups :: "nat \<Rightarrow> nat list \<Rightarrow> nat list list" where
  "specGroups gap idxs = foldl (linkStep gap) [] idxs"

definition specWindow :: "ParsedSubtitle list \<Rightarrow> nat list \<Rightarrow> window" where
  "specWindow subs g =
     \<lparr>matches = map (\<lambda>p. subs ! p) g,
      context_cues =
        map (\<lambda>p. subs ! p)
          (filter (\<lambda>p. p \<notin> set g)
             [hd g - contextSize ..< min (length subs) (last g + contextSize + 1)])\<rparr>"

text \<open>
  The cue sequence of the scenarios: \<open>n\<close> cues with the indices \<open>0, ..., n - 1\<close>, of which
  those at the positions \<open>ms\<close> have the text \<open>x\<close> and the others the text \<open>y\<close>.
\<close>

definition scenarioCue :: "nat list \<Rightarrow> nat \<Rightarrow> ParsedSubtitle" where
  "scenarioCue ms i = \<lparr>index = i, time = [], sub_text = (if i \<in> set ms then ascii ''x'' else ascii ''y'')\<rparr>"

definition scenarioCues :: "nat \<Rightarrow> nat list \<Rightarrow> ParsedSubtitle list" where
  "scenarioCues n ms = map (scenarioCue ms) [0 ..< n]"

text \<open>
  \<open>createdWindow\<close> is the window that \<open>createChunk\<close> returns for a group.
  \<open>walkState\<close> is the state of the walk of \<open>getMatchingSubtitles\<close> that corresponds to a
  list of groups: the last group is the current one, the earlier groups have been turned
  into windows. Groups are good when there is one, none is empty and all their indices
  are positions of the cue sequence.
\<close>

definition createdWindow :: "ParsedSubtitle list \<Rightarrow> nat list \<Rightarrow> window" where
  "createdWindow subs g = the (createChunk subs g contextSize)"

definition walkState :: "ParsedSubtitle list \<Rightarrow> nat list list \<Rightarrow> walk" where
  "walkState subs gs = (int (hd (last gs)), last gs, map (createdWindow subs) (butlast gs))"

definition goodGroups :: "ParsedSubtitle list \<Rightarrow> nat list list \<Rightarrow> bool" where
  "goodGroups subs gs = (gs \<noteq> [] \<and> (\<forall>g\<in>set gs. g \<noteq> [] \<and> (\<forall>i\<in>set g. i < length subs)))"

section \<open>String built-ins\<close>

lemma slice_drop_take: "slice_js s a b = drop a (take b s)"
  by (cases "a \<le> length s") (auto simp: slice_js_def Let_def drop_take min_def)

lemma take_slice: "a \<le> b \<Longrightarrow> take a s @ slice_js s a b = take b s"
proof -
  assume "a \<le> b"
  then have "take a s = take a (take b s)" by (simp add: min_def)
  then show ?thesis
    by (simp only: slice_drop_take append_take_drop_id)
qed

lemma take_sliceFrom: "take a s @ sliceFrom s a = s"
  by (cases "a \<le> length s") (auto simp: sliceFrom_def min_def)

lemma indexOf_empty: "indexOf s [] pos = Some (min pos (length s))"
  by (simp add: indexOf_def Let_def upt_rec[of "min pos (length s)"])

lemma indexOf_SomeD:
  assumes "indexOf s t pos = Some p"
  shows "min pos (length s) \<le> p" and "p + length t \<le> length s"
    and "take (length t) (drop p s) = t"
proof -
  let ?P = "\<lambda>i. take (length t) (drop i s) = t"
  let ?xs = "[min pos (length s) ..< Suc (length s) - length t]"
  from assms have "List.find ?P ?xs = Some p"
    by (simp add: indexOf_def Let_def)
  then obtain i where i: "i < length ?xs" "?P (?xs ! i)" "p = ?xs ! i"
    by (auto simp: find_Some_iff)
  from i(1) have lt: "min pos (length s) + i < Suc (length s) - length t" by simp
  with i(3) have p: "p = min pos (length s) + i" by simp
  show "min pos (length s) \<le> p" using p by simp
  show "p + length t \<le> length s" using lt p by linarith
  show "take (length t) (drop p s) = t" using i(2,3) by simp
qed

lemma includes_str_iff: "includes_str s t \<longleftrightarrow> (\<exists>xs ys. s = xs @ t @ ys)"
proof
  assume "includes_str s t"
  then obtain p where p: "indexOf s t 0 = Some p"
    by (auto simp: includes_str_def)
  from indexOf_SomeD(3)[OF p] have "drop p s = t @ drop (length t) (drop p s)"
    by (metis append_take_drop_id)
  then have "s = take p s @ t @ drop (length t) (drop p s)"
    by (metis append_take_drop_id)
  then show "\<exists>xs ys. s = xs @ t @ ys" by blast
next
  assume "\<exists>xs ys. s = xs @ t @ ys"
  then obtain xs ys where s: "s = xs @ t @ ys" by blast
  have "length xs \<in> set [0 ..< Suc (length s) - length t]" using s by simp
  moreover have "take (length t) (drop (length xs) s) = t" using s by simp
  ultimately have "List.find (\<lambda>i. take (length t) (drop i s) = t) [0 ..< Suc (length s) - length t] \<noteq> None"
    unfolding find_None_iff by blast
  then show "includes_str s t"
    by (simp add: includes_str_def indexOf_def Let_def)
qed

section \<open>The scanning loop\<close>

lemma findPositions_Some_nonempty:
  "findPositions lt tok pos acc = Some ps \<Longrightarrow> tok \<noteq> []"
  by (rule findPositions.raw_induct[where P = "\<lambda>lt tok pos acc ps. tok \<noteq> []"])
     (auto simp: indexOf_empty split: option.splits)

lemma findPositions_empty_token: "findPositions lt [] pos acc = None"
  using findPositions_Some_nonempty[of lt "[]" pos acc] by (cases "findPositions lt [] pos acc") auto

lemma findPositions_terminates:
  assumes "tok \<noteq> []"
  shows "\<exists>ps. findPositions lt tok pos acc = Some ps"
proof (induction "Suc (length lt) - pos" arbitrary: pos acc rule: less_induct)
  case less
  show ?case
  proof (cases "indexOf lt tok pos")
    case None
    then show ?thesis by (subst findPositions.simps) simp
  next
    case (Some p)
    from indexOf_SomeD[OF Some] assms
    have "Suc (length lt) - (p + length tok) < Suc (length lt) - pos"
      by (cases tok) (auto simp: min_def split: if_splits)
    from less[OF this] Some show ?thesis
      by (subst findPositions.simps) simp
  qed
qed

lemma findPositions_spans_aux:
  "findPositions lt tok pos acc = Some ps \<Longrightarrow>
   tok \<noteq> [] \<longrightarrow> (\<forall>sp\<in>set acc. start sp < end_pos sp \<and> end_pos sp \<le> length lt) \<longrightarrow>
   (\<forall>sp\<in>set ps. start sp < end_pos sp \<and> end_pos sp \<le> length lt)"
proof (rule findPositions.raw_induct[where P = "\<lambda>lt tok pos acc ps. tok \<noteq> [] \<longrightarrow> (\<forall>sp\<in>set acc. start sp < end_pos sp \<and> end_pos sp \<le> length lt) \<longrightarrow>
   (\<forall>sp\<in>set ps. start sp < end_pos sp \<and> end_pos sp \<le> length lt)"])
  fix f lt tok pos acc ps
  assume IH: "\<And>lt tok pos acc ps. f lt tok pos acc = Some ps \<Longrightarrow>
      tok \<noteq> [] \<longrightarrow> (\<forall>sp\<in>set acc. start sp < end_pos sp \<and> end_pos sp \<le> length lt) \<longrightarrow>
      (\<forall>sp\<in>set ps. start sp < end_pos sp \<and> end_pos sp \<le> length lt)"
    and eq: "(case indexOf lt tok pos of None \<Rightarrow> Some acc
        | Some p \<Rightarrow> f lt tok (p + length tok) (acc @ [\<lparr>start = p, end_pos = p + length tok\<rparr>])) = Some ps"
  show "tok \<noteq> [] \<longrightarrow> (\<forall>sp\<in>set acc. start sp < end_pos sp \<and> end_pos sp \<le> length lt) \<longrightarrow>
      (\<forall>sp\<in>set ps. start sp < end_pos sp \<and> end_pos sp \<le> length lt)"
  proof (cases "indexOf lt tok pos")
    case None
    with eq show ?thesis by auto
  next
    case (Some p)
    with eq have call: "f lt tok (p + length tok) (acc @ [\<lparr>start = p, end_pos = p + length tok\<rparr>]) = Some ps"
      by simp
    show ?thesis using IH[OF call] indexOf_SomeD(2)[OF Some] by auto
  qed
qed

lemma findPositions_spans:
  assumes "findPositions lt tok pos [] = Some ps" and "sp \<in> set ps"
  shows "start sp < end_pos sp \<and> end_pos sp \<le> length lt"
  using findPositions_spans_aux[OF assms(1)] findPositions_Some_nonempty[OF assms(1)] assms(2)
  by simp

lemma those_map_Some:
  "those (map f xs) = Some ys \<Longrightarrow> length ys = length xs \<and> (\<forall>i<length xs. f (xs ! i) = Some (ys ! i))"
proof (induction xs arbitrary: ys)
  case Nil
  then show ?case by simp
next
  case (Cons x xs)
  then obtain y ys' where y: "f x = Some y" "those (map f xs) = Some ys'" "ys = y # ys'"
    by (auto split: option.splits)
  from Cons.IH[OF y(2)] y show ?case by (auto simp: nth_Cons split: nat.splits)
qed

lemma those_map_total:
  "\<forall>x\<in>set xs. \<exists>y. f x = Some y \<Longrightarrow> \<exists>ys. those (map f xs) = Some ys"
  by (induction xs) auto

lemma findMatches_wellFormed:
  assumes "findMatches lt toks = Some ms" and "m \<in> set ms"
  shows "start m < end_pos m \<and> end_pos m \<le> length lt"
proof -
  let ?f = "\<lambda>token. findPositions lt (token_value token) 0 []"
  from assms(1) obtain pss where pss: "those (map ?f toks) = Some pss"
    and ms: "ms = sort_key start (concat pss)"
    by (auto simp: findMatches_def)
  from assms(2) ms obtain ps where ps: "ps \<in> set pss" "m \<in> set ps" by auto
  then obtain i where i: "i < length pss" "ps = pss ! i" by (auto simp: in_set_conv_nth)
  with those_map_Some[OF pss] have "?f (toks ! i) = Some ps" by simp
  from findPositions_spans[OF this ps(2)] show ?thesis .
qed

lemma findMatches_total:
  assumes "\<forall>token\<in>set toks. token_value token \<noteq> []"
  shows "\<exists>ms. findMatches lt toks = Some ms"
proof -
  have "\<forall>token\<in>set toks. \<exists>ps. findPositions lt (token_value token) 0 [] = Some ps"
    using assms findPositions_terminates by blast
  from those_map_total[OF this] show ?thesis by (auto simp: findMatches_def)
qed

section \<open>Merging and rebuilding\<close>

lemma mergeStep_canonical:
  assumes "separated acc" "\<forall>a\<in>set acc. wellFormed a" "wellFormed m"
  shows "separated (mergeStep acc m) \<and> (\<forall>a\<in>set (mergeStep acc m). wellFormed a)"
proof (cases acc rule: rev_cases)
  case Nil
  with assms show ?thesis by (simp add: mergeStep_def separated_def)
next
  case (snoc ys l)
  with assms show ?thesis
    by (auto simp: mergeStep_def separated_def sorted_wrt_append wellFormed_def)
qed

lemma foldl_mergeStep_canonical:
  "separated acc \<Longrightarrow> \<forall>a\<in>set acc. wellFormed a \<Longrightarrow> \<forall>m\<in>set ms. wellFormed m \<Longrightarrow>
   separated (foldl mergeStep acc ms) \<and> (\<forall>a\<in>set (foldl mergeStep acc ms). wellFormed a)"
proof (induction ms arbitrary: acc)
  case Nil
  then show ?case by simp
next
  case (Cons m ms)
  from mergeStep_canonical[of acc m] Cons.prems
  have "separated (mergeStep acc m)" "\<forall>a\<in>set (mergeStep acc m). wellFormed a" by auto
  from Cons.IH[OF this] Cons.prems(3) show ?case by simp
qed

lemma mergeMatches_canonical:
  "\<forall>m\<in>set ms. wellFormed m \<Longrightarrow>
   separated (mergeMatches ms) \<and> (\<forall>a\<in>set (mergeMatches ms). wellFormed a)"
  unfolding mergeMatches_def
  by (rule foldl_mergeStep_canonical) (simp_all add: separated_def)

lemma buildStep_pair:
  "buildStep text (chunks, lastIndex) m =
     (chunks @ [Raw (slice_js text lastIndex (start m)), Mark (slice_js text (start m) (end_pos m))],
      end_pos m)"
  by (simp add: buildStep_def)

lemma foldl_buildStep_content:
  assumes "separated ms" "\<forall>m\<in>set ms. wellFormed m" "\<forall>m\<in>set ms. lastIndex \<le> start m"
    and "concat (map content chunks) = take lastIndex text"
    and "foldl (buildStep text) (chunks, lastIndex) ms = (chunks', lastIndex')"
  shows "concat (map content chunks') = take lastIndex' text"
  using assms
proof (induction ms arbitrary: chunks lastIndex)
  case Nil
  then show ?case by simp
next
  case (Cons m ms)
  let ?chunks = "chunks @ [Raw (slice_js text lastIndex (start m)), Mark (slice_js text (start m) (end_pos m))]"
  from Cons.prems have le: "lastIndex \<le> start m" "start m \<le> end_pos m"
    by (simp_all add: wellFormed_def)
  have c: "concat (map content ?chunks) = take (end_pos m) text"
  proof -
    have "take lastIndex text @ slice_js text lastIndex (start m) = take (start m) text"
      using le(1) by (rule take_slice)
    moreover have "take (start m) text @ slice_js text (start m) (end_pos m) = take (end_pos m) text"
      using le(2) by (rule take_slice)
    ultimately have "(take lastIndex text @ slice_js text lastIndex (start m))
        @ slice_js text (start m) (end_pos m) = take (end_pos m) text" by simp
    then show ?thesis using Cons.prems(4) by simp
  qed
  from Cons.prems(1) have sep: "separated ms" "\<forall>x\<in>set ms. end_pos m \<le> start x"
    by (auto simp: separated_def)
  from Cons.prems(5) have f: "foldl (buildStep text) (?chunks, end_pos m) ms = (chunks', lastIndex')"
    by (simp add: buildStep_pair)
  from Cons.IH[OF sep(1) _ sep(2) c f] Cons.prems(2) show ?case by simp
qed

lemma buildChunks_content:
  assumes "separated ms" "\<forall>m\<in>set ms. wellFormed m"
  shows "concat (map content (buildChunks text ms)) = text"
proof -
  obtain chunks li where f: "foldl (buildStep text) ([], 0) ms = (chunks, li)"
    by (cases "foldl (buildStep text) ([], 0) ms")
  from foldl_buildStep_content[OF assms _ _ f]
  have "concat (map content chunks) = take li text" by simp
  then show ?thesis by (simp add: buildChunks_def f take_sliceFrom)
qed

text \<open>
  C1 (highlight partition). Whenever the highlighter produces its pieces, the raw slices
  and the contents of the marked slices, concatenated in order, are the original text,
  and the returned string is the concatenation of the rendered pieces. The pieces are
  produced for every text and every list of non-empty tokens (tokens are non-empty by
  the data model; the scan does not return for an empty one).
\<close>

theorem highlight_partition:
  "(highlightChunks toLowerCase text toks = Some chunks \<longrightarrow>
      concat (map content chunks) = text
      \<and> highlightText toLowerCase text toks = Some (concat (map render chunks)))
   \<and> ((\<forall>token\<in>set toks. token_value token \<noteq> []) \<longrightarrow>
        (\<exists>cs. highlightChunks toLowerCase text toks = Some cs))"
proof (intro conjI impI)
  assume h: "highlightChunks toLowerCase text toks = Some chunks"
  show "highlightText toLowerCase text toks = Some (concat (map render chunks))"
    by (simp add: highlightText_def h)
  show "concat (map content chunks) = text"
  proof (cases "toks = []")
    case True
    with h show ?thesis by (auto simp: highlightChunks_def)
  next
    case False
    with h obtain ms where ms: "findMatches (toLowerCase text) toks = Some ms"
      and c: "chunks = buildChunks text (mergeMatches ms)"
      by (auto simp: highlightChunks_def)
    have "\<forall>m\<in>set ms. wellFormed m"
      using findMatches_wellFormed[OF ms] by (auto simp: wellFormed_def dest: less_imp_le)
    from mergeMatches_canonical[OF this] show ?thesis
      unfolding c by (intro buildChunks_content) auto
  qed
next
  assume "\<forall>token\<in>set toks. token_value token \<noteq> []"
  from findMatches_total[OF this, of "toLowerCase text"]
  show "\<exists>cs. highlightChunks toLowerCase text toks = Some cs"
    by (auto simp: highlightChunks_def)
qed

theorem highlight_partition_witness:
  "highlightText toLowerCaseLatin (ascii ''Der Kater'') [\<lparr>token_value = ascii ''er''\<rparr>, \<lparr>token_value = ascii ''r k''\<rparr>]
     = Some (ascii ''D<mark>er K</mark>at<mark>er</mark>'')
   \<and> concat (map content [Raw (ascii ''D''), Mark (ascii ''er K''), Raw (ascii ''at''), Mark (ascii ''er''), Raw []])
       = ascii ''Der Kater''"
proof -
  have h: "highlightChunks toLowerCaseLatin (ascii ''Der Kater'') [\<lparr>token_value = ascii ''er''\<rparr>, \<lparr>token_value = ascii ''r k''\<rparr>]
     = Some [Raw (ascii ''D''), Mark (ascii ''er K''), Raw (ascii ''at''), Mark (ascii ''er''), Raw []]"
    by code_simp
  have r: "concat (map render [Raw (ascii ''D''), Mark (ascii ''er K''), Raw (ascii ''at''), Mark (ascii ''er''), Raw []])
     = ascii ''D<mark>er K</mark>at<mark>er</mark>''"
    by code_simp
  from highlight_partition[of toLowerCaseLatin "ascii ''Der Kater''" "[\<lparr>token_value = ascii ''er''\<rparr>, \<lparr>token_value = ascii ''r k''\<rparr>]"
      "[Raw (ascii ''D''), Mark (ascii ''er K''), Raw (ascii ''at''), Mark (ascii ''er''), Raw []]"] h r
  show ?thesis by simp
qed

section \<open>Empty tokens, span bounds and texts without occurrence\<close>

lemma those_map_None:
  "x \<in> set xs \<Longrightarrow> f x = None \<Longrightarrow> those (map f xs) = None"
  by (induction xs) (auto split: option.splits)

lemma those_map_const:
  "\<forall>x\<in>set xs. f x = Some c \<Longrightarrow> those (map f xs) = Some (map (\<lambda>x. c) xs)"
  by (induction xs) auto

lemma highlightText_empty_token:
  assumes "token \<in> set toks" "token_value token = []"
  shows "highlightText toLowerCase text toks = None"
proof -
  from assms(1) have ne: "toks \<noteq> []" by auto
  have "findPositions (toLowerCase text) (token_value token) 0 [] = None"
    by (simp add: assms(2) findPositions_empty_token)
  with assms(1) have "those (map (\<lambda>token. findPositions (toLowerCase text) (token_value token) 0 []) toks) = None"
    by (rule those_map_None)
  then show ?thesis
    by (simp add: highlightText_def highlightChunks_def findMatches_def ne)
qed

text \<open>
  C7 (empty token), as amended. With an empty token \<open>indexOf\<close> finds a match at the current
  position and the position does not advance, so the scan never returns, and neither
  does the highlighter when one of its tokens is empty; for every non-empty token the
  scan returns.
\<close>

theorem span_finder_returns_iff_token_nonempty:
  "findPositions lowerText [] pos acc = None
   \<and> (tok \<noteq> [] \<longrightarrow> (\<exists>ps. findPositions lowerText tok pos acc = Some ps))
   \<and> ((\<exists>token\<in>set toks. token_value token = []) \<longrightarrow> highlightText toLowerCase text toks = None)"
  using findPositions_empty_token findPositions_terminates highlightText_empty_token
  by blast

theorem span_finder_returns_iff_token_nonempty_witness:
  "findPositions (ascii ''banana'') [] 0 [] = None
   \<and> (\<exists>ps. findPositions (ascii ''banana'') (ascii ''an'') 0 [] = Some ps)
   \<and> highlightText toLowerCaseLatin (ascii ''Banana'') [\<lparr>token_value = ascii ''an''\<rparr>, \<lparr>token_value = []\<rparr>] = None"
  using span_finder_returns_iff_token_nonempty[of "ascii ''banana''" 0 "[]" "ascii ''an''"
      "[\<lparr>token_value = ascii ''an''\<rparr>, \<lparr>token_value = []\<rparr>]" toLowerCaseLatin "ascii ''Banana''"]
  by (simp add: ascii_def)

theorem span_finder_empty_token_counterexample:
  "findPositions (ascii ''abc'') [] 0 [] \<noteq> Some []"
  by (simp add: findPositions_empty_token)

lemma spans_within_text_if_lowering_keeps_length:
  assumes "length (toLowerCase text) = length text"
    and "findMatches (toLowerCase text) toks = Some ms" and "m \<in> set ms"
  shows "start m < end_pos m \<and> end_pos m \<le> length text"
  using findMatches_wellFormed[OF assms(2,3)] assms(1) by simp

text \<open>
  C6 (span bound). The spans are positions in the lower-cased text, which is longer than
  the text when the text contains U+0130: for the title consisting of U+0130 followed by
  \<open>stanbul\<close> (8 code units) and the token \<open>bul\<close>, the only span is \<open>[6, 9)\<close>, and the
  highlighter marks \<open>ul\<close> instead of \<open>bul\<close>.
\<close>

theorem span_beyond_text_at_dotted_capital_I:
  "findMatches (toLowerCaseLatin (0x130 # ascii ''stanbul'')) [\<lparr>token_value = ascii ''bul''\<rparr>]
     = Some [\<lparr>start = 6, end_pos = 9\<rparr>]
   \<and> length (0x130 # ascii ''stanbul'') = 8
   \<and> highlightText toLowerCaseLatin (0x130 # ascii ''stanbul'') [\<lparr>token_value = ascii ''bul''\<rparr>]
     = Some (0x130 # ascii ''stanb<mark>ul</mark>'')"
  by code_simp

lemma findPositions_no_occurrence:
  "indexOf lt tok 0 = None \<Longrightarrow> findPositions lt tok 0 [] = Some []"
  by (subst findPositions.simps) simp

text \<open>
  C10 (no occurrence, no marker). When the token list is not empty and no token value
  occurs in the lower-cased text, which is how the page tests a case-insensitive
  occurrence of its lower-case tokens, the highlighter returns the text unchanged.
\<close>

theorem highlight_identity_without_occurrence:
  assumes "toks \<noteq> []"
    and "\<forall>token\<in>set toks. \<not> includes_str (toLowerCase text) (token_value token)"
  shows "highlightText toLowerCase text toks = Some text"
proof -
  let ?f = "\<lambda>token. findPositions (toLowerCase text) (token_value token) 0 []"
  from assms(2) have "\<forall>token\<in>set toks. ?f token = Some []"
    by (auto simp: includes_str_def intro: findPositions_no_occurrence)
  then have "those (map ?f toks) = Some (map (\<lambda>x. []) toks)"
    by (rule those_map_const)
  then have "findMatches (toLowerCase text) toks
      = Some (sort_key start (concat (map (\<lambda>x. []) toks)))"
    by (simp add: findMatches_def)
  moreover have "concat (map (\<lambda>x. []) toks) = ([] :: span list)"
    by (induction toks) auto
  ultimately have "findMatches (toLowerCase text) toks = Some (sort_key start [])"
    by (simp only:)
  then show ?thesis
    by (simp add: highlightText_def highlightChunks_def assms(1) mergeMatches_def
        buildChunks_def sliceFrom_def)
qed

theorem highlight_identity_without_occurrence_witness:
  "highlightText toLowerCaseLatin (ascii ''Zeit im Bild'') [\<lparr>token_value = ascii ''wetter''\<rparr>, \<lparr>token_value = ascii ''bilder''\<rparr>]
     = Some (ascii ''Zeit im Bild'')"
proof -
  have "\<forall>token\<in>set [\<lparr>token_value = ascii ''wetter''\<rparr>, \<lparr>token_value = ascii ''bilder''\<rparr>].
          \<not> includes_str (toLowerCaseLatin (ascii ''Zeit im Bild'')) (token_value token)"
    by code_simp
  with highlight_identity_without_occurrence[of "[\<lparr>token_value = ascii ''wetter''\<rparr>, \<lparr>token_value = ascii ''bilder''\<rparr>]"
      toLowerCaseLatin "ascii ''Zeit im Bild''"]
  show ?thesis by simp
qed

section \<open>Span merging\<close>

lemma spanKey_eq_iff: "spanKey a = spanKey b \<longleftrightarrow> a = b"
  by (cases a, cases b) (auto simp: spanKey_def)

lemma mergeStep_Nil: "mergeStep [] m = [m]"
  by (simp add: mergeStep_def)

lemma mergeStep_snoc:
  "mergeStep (ys @ [l]) m =
     (if start m \<le> end_pos l then ys @ [l\<lparr>end_pos := max (end_pos l) (end_pos m)\<rparr>]
      else ys @ [l, m])"
  by (simp add: mergeStep_def)

lemma mergeStep_swap:
  assumes "start a = start b" "wellFormed a" "wellFormed b"
  shows "mergeStep (mergeStep acc a) b = mergeStep (mergeStep acc b) a"
proof (cases acc rule: rev_cases)
  case Nil
  with assms show ?thesis
    by (cases a, cases b)
       (simp add: mergeStep_Nil mergeStep_snoc[of "[]", simplified] wellFormed_def max.commute)
next
  case (snoc ys l)
  with assms show ?thesis
    by (cases a, cases b, cases l)
       (auto simp: mergeStep_snoc mergeStep_snoc[of "ys @ [u]" for u, simplified]
          wellFormed_def max.assoc max.commute max.left_commute)
qed

lemma foldl_mergeStep_insort:
  assumes "wellFormed x" "\<forall>y\<in>set M. start x \<le> start y \<and> wellFormed y"
  shows "foldl mergeStep acc (insort_key spanKey x M) = foldl mergeStep (mergeStep acc x) M"
  using assms(2)
proof (induction M arbitrary: acc)
  case Nil
  then show ?case by simp
next
  case (Cons y M)
  show ?case
  proof (cases "spanKey x \<le> spanKey y")
    case True
    then show ?thesis by simp
  next
    case False
    with Cons.prems have eq: "start y = start x"
      by (auto simp: spanKey_def less_eq_prod_def)
    have "foldl mergeStep acc (insort_key spanKey x (y # M))
        = foldl mergeStep (mergeStep acc y) (insort_key spanKey x M)"
      using False by simp
    also have "\<dots> = foldl mergeStep (mergeStep (mergeStep acc y) x) M"
      using Cons.IH Cons.prems by simp
    also have "mergeStep (mergeStep acc y) x = mergeStep (mergeStep acc x) y"
      using eq assms(1) Cons.prems by (intro mergeStep_swap) auto
    finally show ?thesis by simp
  qed
qed

lemma foldl_mergeStep_sort_key:
  assumes "sorted (map start L)" "\<forall>y\<in>set L. wellFormed y"
  shows "foldl mergeStep acc (sort_key spanKey L) = foldl mergeStep acc L"
  using assms
proof (induction L arbitrary: acc)
  case Nil
  then show ?case by simp
next
  case (Cons x L)
  have "foldl mergeStep acc (sort_key spanKey (x # L))
      = foldl mergeStep acc (insort_key spanKey x (sort_key spanKey L))"
    by simp
  also have "\<dots> = foldl mergeStep (mergeStep acc x) (sort_key spanKey L)"
    using Cons.prems by (intro foldl_mergeStep_insort) auto
  also have "\<dots> = foldl mergeStep (mergeStep acc x) L"
    using Cons.IH Cons.prems by simp
  finally show ?case by simp
qed

lemma filter_eq_replicate_count: "filter (\<lambda>y. x = y) L = replicate (count (mset L) x) x"
  by (induction L) auto

lemma sort_key_spanKey_cong:
  assumes "mset A = mset B"
  shows "sort_key spanKey A = sort_key spanKey B"
proof (rule properties_for_sort_key)
  show "mset (sort_key spanKey B) = mset A" using assms by simp
  show "sorted (map spanKey (sort_key spanKey B))" by (rule sorted_sort_key)
  fix k assume "k \<in> set (sort_key spanKey B)"
  have "filter (\<lambda>x. spanKey k = spanKey x) (sort_key spanKey B)
      = replicate (count (mset (sort_key spanKey B)) k) k"
    by (simp only: spanKey_eq_iff filter_eq_replicate_count)
  also have "\<dots> = replicate (count (mset A) k) k" using assms by simp
  also have "\<dots> = filter (\<lambda>x. spanKey k = spanKey x) A"
    by (simp only: spanKey_eq_iff filter_eq_replicate_count)
  finally show "filter (\<lambda>x. spanKey k = spanKey x) (sort_key spanKey B)
      = filter (\<lambda>x. spanKey k = spanKey x) A" .
qed

lemma mergeSpans_permutation:
  assumes "mset xs = mset ys" "\<forall>s\<in>set xs. wellFormed s"
  shows "mergeSpans xs = mergeSpans ys"
proof -
  from assms have wf: "\<forall>s\<in>set ys. wellFormed s"
    by (metis mset_eq_setD)
  have "mergeSpans xs = foldl mergeStep [] (sort_key spanKey (sort_key start xs))"
    using assms(2) by (simp add: mergeSpans_def mergeMatches_def foldl_mergeStep_sort_key)
  also have "sort_key spanKey (sort_key start xs) = sort_key spanKey (sort_key start ys)"
    using assms(1) by (intro sort_key_spanKey_cong) simp
  also have "foldl mergeStep [] \<dots> = mergeSpans ys"
    using wf by (simp add: mergeSpans_def mergeMatches_def foldl_mergeStep_sort_key)
  finally show ?thesis .
qed

lemma covers_refl: "covers a a"
  by (simp add: covers_def)

lemma covers_trans: "covers m x \<Longrightarrow> covers x a \<Longrightarrow> covers m a"
  by (auto simp: covers_def)

lemma mergeStep_last_start:
  "start (last (mergeStep acc m)) = (if acc \<noteq> [] \<and> start m \<le> end_pos (last acc) then start (last acc) else start m)"
  by (cases acc rule: rev_cases) (auto simp: mergeStep_Nil mergeStep_snoc)

lemma mergeStep_nonempty: "mergeStep acc m \<noteq> []"
  by (simp add: mergeStep_def)

lemma mergeStep_wellFormed:
  "\<forall>a\<in>set acc. wellFormed a \<Longrightarrow> wellFormed m \<Longrightarrow> \<forall>a\<in>set (mergeStep acc m). wellFormed a"
  by (cases acc rule: rev_cases) (auto simp: mergeStep_Nil mergeStep_snoc wellFormed_def)

lemma mergeStep_covers:
  assumes "acc \<noteq> [] \<longrightarrow> start (last acc) \<le> start m"
  shows "\<forall>x\<in>set acc \<union> {m}. \<exists>m'\<in>set (mergeStep acc m). covers m' x"
proof (cases acc rule: rev_cases)
  case Nil
  then show ?thesis by (simp add: mergeStep_Nil covers_refl)
next
  case (snoc ys l)
  with assms have le: "start l \<le> start m" by simp
  show ?thesis
  proof (cases "start m \<le> end_pos l")
    case True
    let ?l' = "l\<lparr>end_pos := max (end_pos l) (end_pos m)\<rparr>"
    have ms: "mergeStep (ys @ [l]) m = ys @ [?l']" using True by (simp add: mergeStep_snoc)
    have "covers ?l' l" "covers ?l' m" using le by (auto simp: covers_def)
    moreover have "\<forall>x\<in>set ys. \<exists>m'\<in>set (ys @ [?l']). covers m' x"
      using covers_refl by auto
    ultimately show ?thesis unfolding snoc ms by auto
  next
    case False
    then have ms: "mergeStep acc m = acc @ [m]" using snoc by (simp add: mergeStep_snoc)
    show ?thesis unfolding ms using covers_refl by auto
  qed
qed

lemma mergeStep_chars:
  assumes "acc \<noteq> [] \<longrightarrow> start (last acc) \<le> start m" "\<forall>a\<in>set acc. wellFormed a"
  shows "\<Union>(chars ` set (mergeStep acc m)) = \<Union>(chars ` set acc) \<union> chars m"
proof (cases acc rule: rev_cases)
  case Nil
  then show ?thesis by (simp add: mergeStep_Nil)
next
  case (snoc ys l)
  with assms have le: "start l \<le> start m" "start l \<le> end_pos l" by (simp_all add: wellFormed_def)
  show ?thesis
  proof (cases "start m \<le> end_pos l")
    case True
    let ?l' = "l\<lparr>end_pos := max (end_pos l) (end_pos m)\<rparr>"
    have ms: "mergeStep (ys @ [l]) m = ys @ [?l']" using True by (simp add: mergeStep_snoc)
    have "chars ?l' = chars l \<union> chars m" using le True by (auto simp: chars_def)
    then show ?thesis unfolding snoc ms by auto
  next
    case False
    then have ms: "mergeStep acc m = acc @ [m]" using snoc by (simp add: mergeStep_snoc)
    show ?thesis unfolding ms by auto
  qed
qed

lemma foldl_mergeStep_union:
  assumes "sorted (map start ms)" "\<forall>m\<in>set ms. wellFormed m" "\<forall>a\<in>set acc. wellFormed a"
    and "acc \<noteq> [] \<longrightarrow> (\<forall>m\<in>set ms. start (last acc) \<le> start m)"
  shows "\<Union>(chars ` set (foldl mergeStep acc ms)) = \<Union>(chars ` set acc) \<union> \<Union>(chars ` set ms)
     \<and> (\<forall>x\<in>set acc \<union> set ms. \<exists>m'\<in>set (foldl mergeStep acc ms). covers m' x)"
  using assms
proof (induction ms arbitrary: acc)
  case Nil
  then show ?case using covers_refl by auto
next
  case (Cons m ms)
  let ?acc = "mergeStep acc m"
  from Cons.prems have le: "acc \<noteq> [] \<longrightarrow> start (last acc) \<le> start m" by simp
  have wf: "\<forall>a\<in>set ?acc. wellFormed a"
    using Cons.prems by (intro mergeStep_wellFormed) auto
  have nxt: "?acc \<noteq> [] \<longrightarrow> (\<forall>x\<in>set ms. start (last ?acc) \<le> start x)"
    using Cons.prems(1,4) by (auto simp: mergeStep_last_start)
  from Cons.prems have srt: "sorted (map start ms)" "\<forall>m\<in>set ms. wellFormed m" by simp_all
  note IH = Cons.IH[OF srt wf nxt]
  have ch: "\<Union>(chars ` set ?acc) = \<Union>(chars ` set acc) \<union> chars m"
    using le Cons.prems(3) by (rule mergeStep_chars)
  have cv: "\<forall>x\<in>set acc \<union> {m}. \<exists>m'\<in>set ?acc. covers m' x"
    using le by (rule mergeStep_covers)
  have "\<forall>x\<in>set acc \<union> set (m # ms). \<exists>m'\<in>set (foldl mergeStep ?acc ms). covers m' x"
  proof
    fix x assume "x \<in> set acc \<union> set (m # ms)"
    then consider "x \<in> set acc \<union> {m}" | "x \<in> set ms" by auto
    then show "\<exists>m'\<in>set (foldl mergeStep ?acc ms). covers m' x"
    proof cases
      case 1
      with cv obtain y where y: "y \<in> set ?acc" "covers y x" by blast
      with IH obtain m' where "m' \<in> set (foldl mergeStep ?acc ms)" "covers m' y" by blast
      with y show ?thesis using covers_trans by blast
    next
      case 2
      with IH show ?thesis by blast
    qed
  qed
  with IH ch show ?case by auto
qed

lemma mergeSpans_union:
  assumes "\<forall>s\<in>set spans. wellFormed s"
  shows "\<Union>(chars ` set (mergeSpans spans)) = \<Union>(chars ` set spans)"
    and "\<forall>x\<in>set spans. \<exists>m\<in>set (mergeSpans spans). covers m x"
    and "separated (mergeSpans spans)"
proof -
  have "sorted (map start (sort_key start spans))" by (rule sorted_sort_key)
  from foldl_mergeStep_union[OF this, of "[]"] assms
  show "\<Union>(chars ` set (mergeSpans spans)) = \<Union>(chars ` set spans)"
    and "\<forall>x\<in>set spans. \<exists>m\<in>set (mergeSpans spans). covers m x"
    by (simp_all add: mergeSpans_def mergeMatches_def)
  show "separated (mergeSpans spans)"
    using mergeMatches_canonical[of "sort_key start spans"] assms by (simp add: mergeSpans_def)
qed

lemma separated_covers_unique:
  assumes "separated ms" "m1 \<in> set ms" "m2 \<in> set ms"
    and "covers m1 a" "covers m2 b" "wellFormed a" "wellFormed b"
    and "start a \<le> start b" "start b \<le> end_pos a"
  shows "m1 = m2"
proof (rule ccontr)
  assume ne: "m1 \<noteq> m2"
  from assms(2,3) obtain i j where ij: "i < length ms" "j < length ms" "ms ! i = m1" "ms ! j = m2"
    by (auto simp: in_set_conv_nth)
  with ne have "i \<noteq> j" by auto
  then consider "i < j" | "j < i" by linarith
  then show False
  proof cases
    case 1
    with assms(1) ij have "end_pos m1 < start m2"
      by (auto simp: separated_def sorted_wrt_iff_nth_less)
    with assms(4-9) show False by (auto simp: covers_def wellFormed_def)
  next
    case 2
    with assms(1) ij have "end_pos m2 < start m1"
      by (auto simp: separated_def sorted_wrt_iff_nth_less)
    with assms(4-9) show False by (auto simp: covers_def wellFormed_def)
  qed
qed

lemma mergeSpans_pair:
  assumes "start a \<le> start b"
  shows "mergeSpans [a, b] =
     (if start b \<le> end_pos a then [\<lparr>start = start a, end_pos = max (end_pos a) (end_pos b)\<rparr>]
      else [a, b])"
  using assms
  by (cases a) (simp add: mergeSpans_def mergeMatches_def mergeStep_Nil mergeStep_snoc[of "[]", simplified])

text \<open>
  C5 (merge correctness). For spans that do not end before they start (every span of the
  finder is such): two input spans that overlap or touch lie inside one and the same
  output span; two input spans with a character between them that no input span contains
  are never inside the same output span; the output does not depend on the order of the
  input; the output spans are separated and contain exactly the characters of the input
  spans. For an input of two spans the output is their union, as one span, when they
  overlap or touch, and the two spans themselves when a character separates them.
\<close>

theorem merge_computes_interval_union:
  assumes "\<forall>s\<in>set spans. wellFormed s"
  shows "(\<forall>a\<in>set spans. \<forall>b\<in>set spans. start a \<le> start b \<and> start b \<le> end_pos a \<longrightarrow>
            (\<exists>m\<in>set (mergeSpans spans). covers m a \<and> covers m b))
       \<and> (\<forall>a\<in>set spans. \<forall>b\<in>set spans. \<forall>g.
            end_pos a \<le> g \<and> g < start b \<and> (\<forall>c\<in>set spans. g \<notin> chars c) \<longrightarrow>
            \<not> (\<exists>m\<in>set (mergeSpans spans). covers m a \<and> covers m b))
       \<and> (\<forall>sps. mset sps = mset spans \<longrightarrow> mergeSpans sps = mergeSpans spans)
       \<and> separated (mergeSpans spans)
       \<and> \<Union>(chars ` set (mergeSpans spans)) = \<Union>(chars ` set spans)
       \<and> (spans = [p, q] \<and> start p \<le> start q \<and> start q \<le> end_pos p \<longrightarrow>
            mergeSpans spans = [\<lparr>start = start p, end_pos = max (end_pos p) (end_pos q)\<rparr>])
       \<and> (spans = [p, q] \<and> end_pos p < start q \<longrightarrow> mergeSpans spans = [p, q])"
proof (intro conjI ballI allI impI)
  fix a b assume ab: "a \<in> set spans" "b \<in> set spans"
    and touch: "start a \<le> start b \<and> start b \<le> end_pos a"
  from mergeSpans_union(2)[OF assms] ab obtain m1 m2 where
    m: "m1 \<in> set (mergeSpans spans)" "covers m1 a" "m2 \<in> set (mergeSpans spans)" "covers m2 b"
    by blast
  from ab assms have "wellFormed a" "wellFormed b" by auto
  with separated_covers_unique[OF mergeSpans_union(3)[OF assms] m(1,3) m(2,4)] touch
  have "m1 = m2" by simp
  with m show "\<exists>m\<in>set (mergeSpans spans). covers m a \<and> covers m b" by blast
next
  fix a b g assume ab: "a \<in> set spans" "b \<in> set spans"
    and gap: "end_pos a \<le> g \<and> g < start b \<and> (\<forall>c\<in>set spans. g \<notin> chars c)"
  show "\<not> (\<exists>m\<in>set (mergeSpans spans). covers m a \<and> covers m b)"
  proof
    assume "\<exists>m\<in>set (mergeSpans spans). covers m a \<and> covers m b"
    then obtain m where m: "m \<in> set (mergeSpans spans)" "covers m a" "covers m b" by blast
    from ab assms have "wellFormed a" "wellFormed b" by auto
    with m(2,3) gap have "g \<in> chars m"
      by (auto simp: covers_def chars_def wellFormed_def)
    with m(1) have "g \<in> \<Union>(chars ` set (mergeSpans spans))" by blast
    with mergeSpans_union(1)[OF assms] gap show False by blast
  qed
next
  fix sps assume "mset sps = mset spans"
  then show "mergeSpans sps = mergeSpans spans"
    using assms by (intro mergeSpans_permutation) (auto dest: mset_eq_setD)
next
  show "separated (mergeSpans spans)" by (rule mergeSpans_union(3)[OF assms])
  show "\<Union>(chars ` set (mergeSpans spans)) = \<Union>(chars ` set spans)"
    by (rule mergeSpans_union(1)[OF assms])
next
  assume "spans = [p, q] \<and> start p \<le> start q \<and> start q \<le> end_pos p"
  then show "mergeSpans spans = [\<lparr>start = start p, end_pos = max (end_pos p) (end_pos q)\<rparr>]"
    by (simp add: mergeSpans_pair)
next
  assume h: "spans = [p, q] \<and> end_pos p < start q"
  with assms have "start p \<le> start q" by (auto simp: wellFormed_def)
  with h show "mergeSpans spans = [p, q]" by (simp add: mergeSpans_pair)
qed

theorem merge_computes_interval_union_witness:
  "mergeSpans [\<lparr>start = 0, end_pos = 3\<rparr>, \<lparr>start = 3, end_pos = 5\<rparr>] = [\<lparr>start = 0, end_pos = 5\<rparr>]
   \<and> mergeSpans [\<lparr>start = 3, end_pos = 5\<rparr>, \<lparr>start = 0, end_pos = 3\<rparr>] = [\<lparr>start = 0, end_pos = 5\<rparr>]
   \<and> mergeSpans [\<lparr>start = 0, end_pos = 3\<rparr>, \<lparr>start = 4, end_pos = 6\<rparr>]
       = [\<lparr>start = 0, end_pos = 3\<rparr>, \<lparr>start = 4, end_pos = 6\<rparr>]
   \<and> mergeSpans [\<lparr>start = 4, end_pos = 6\<rparr>, \<lparr>start = 0, end_pos = 3\<rparr>]
       = [\<lparr>start = 0, end_pos = 3\<rparr>, \<lparr>start = 4, end_pos = 6\<rparr>]
   \<and> \<not> (\<exists>m\<in>set (mergeSpans [\<lparr>start = 0, end_pos = 3\<rparr>, \<lparr>start = 4, end_pos = 6\<rparr>]).
          covers m \<lparr>start = 0, end_pos = 3\<rparr> \<and> covers m \<lparr>start = 4, end_pos = 6\<rparr>)"
proof -
  let ?a = "\<lparr>start = 0, end_pos = 3\<rparr>" and ?b = "\<lparr>start = 3, end_pos = 5\<rparr>"
    and ?c = "\<lparr>start = 4, end_pos = 6\<rparr>"
  have wf1: "\<forall>s\<in>set [?a, ?b]. wellFormed s" and wf2: "\<forall>s\<in>set [?a, ?c]. wellFormed s"
    by (simp_all add: wellFormed_def)
  note t1 = merge_computes_interval_union[OF wf1, of ?a ?b]
  note t2 = merge_computes_interval_union[OF wf2, of ?a ?c]
  note touch = t1[THEN conjunct2, THEN conjunct2, THEN conjunct2, THEN conjunct2,
      THEN conjunct2, THEN conjunct1]
  note perm1 = t1[THEN conjunct2, THEN conjunct2, THEN conjunct1, rule_format, of "[?b, ?a]"]
  note apart = t2[THEN conjunct2, THEN conjunct2, THEN conjunct2, THEN conjunct2,
      THEN conjunct2, THEN conjunct2]
  note perm2 = t2[THEN conjunct2, THEN conjunct2, THEN conjunct1, rule_format, of "[?c, ?a]"]
  note dist = t2[THEN conjunct2, THEN conjunct1, rule_format, of ?a ?c 3]
  have m1: "mergeSpans [?a, ?b] = [\<lparr>start = 0, end_pos = 5\<rparr>]" using touch by simp
  have p1: "mergeSpans [?b, ?a] = mergeSpans [?a, ?b]" using perm1 by simp
  have m2: "mergeSpans [?a, ?c] = [?a, ?c]" using apart by simp
  have p2: "mergeSpans [?c, ?a] = mergeSpans [?a, ?c]" using perm2 by simp
  have d: "\<not> (\<exists>m\<in>set (mergeSpans [?a, ?c]). covers m ?a \<and> covers m ?c)"
    by (rule dist) (simp_all add: chars_def)
  from m1 p1 m2 p2 d show ?thesis by (simp only: simp_thms)
qed

section \<open>Parsing, grouping and the short query\<close>

text \<open>
  C2 (empty token set), as amended. With an empty token set the grouper returns no window
  in snippet mode; in full-transcript mode it returns exactly one window, which has no
  matches and the whole cue sequence as context.
\<close>

theorem grouper_empty_tokens:
  "getMatchingSubtitles toLowerCase subtitles showFullTranscript [] =
     (if showFullTranscript
      then Some [\<lparr>matches = [], context_cues = parseSubtitles subtitles\<rparr>]
      else Some [])"
  by (simp add: getMatchingSubtitles_def groupSubtitles_def)

theorem grouper_empty_tokens_witness:
  "getMatchingSubtitles toLowerCaseLatin (Some transcriptWithBareCue) False [] = Some []
   \<and> getMatchingSubtitles toLowerCaseLatin None True [] = Some [\<lparr>matches = [], context_cues = []\<rparr>]"
  using grouper_empty_tokens[of toLowerCaseLatin "Some transcriptWithBareCue" False]
    grouper_empty_tokens[of toLowerCaseLatin None True]
  by (simp add: parseSubtitles_def)

theorem grouper_empty_tokens_full_transcript_counterexample:
  "getMatchingSubtitles toLowerCaseLatin (Some transcriptWithBareCue) True [] =
     Some [\<lparr>matches = [],
            context_cues = [\<lparr>index = 1, time = ascii ''00:03'', sub_text = ascii ''Willkommen''\<rparr>,
                            \<lparr>index = 2, time = ascii ''00:05'', sub_text = ascii ''Das Wetter''\<rparr>]\<rparr>]
   \<and> getMatchingSubtitles toLowerCaseLatin (Some transcriptWithBareCue) True [] \<noteq> Some []"
  unfolding transcriptWithBareCue_def by code_simp

lemma parseBlock_index: "parseBlock block idx = Some c \<Longrightarrow> index c = idx"
  by (auto simp: parseBlock_def Let_def split: if_splits)

lemma parseSubtitles_index_is_block_position:
  assumes "c \<in> set (parseSubtitles (Some raw))"
  shows "index c < length (sliceFrom (split raw (ascii ''\<newline>\<newline>'')) 1)
     \<and> parseBlock (sliceFrom (split raw (ascii ''\<newline>\<newline>'')) 1 ! index c) (index c) = Some c"
proof -
  let ?blocks = "sliceFrom (split raw (ascii ''\<newline>\<newline>'')) 1"
  from assms obtain block idx where z: "(block, idx) \<in> set (zip ?blocks [0 ..< length ?blocks])"
    and p: "parseBlock block idx = Some c"
    by (auto simp: parseSubtitles_def Let_def split: if_splits)
  from z obtain k where k: "k < length ?blocks" "block = ?blocks ! k" "idx = k"
    by (auto simp: in_set_zip)
  with p parseBlock_index[OF p] show ?thesis by simp
qed

text \<open>
  C4 (dense indices). The index of a cue is the position of its block among the blocks
  after the header, counted before the malformed blocks are removed: in the transcript
  whose first cue has no identifier line (a block of two lines), the first kept cue has
  index 1 and the second has index 2.
\<close>

theorem parse_index_after_dropped_block:
  "parseSubtitles (Some transcriptWithBareCue) =
     [\<lparr>index = 1, time = ascii ''00:03'', sub_text = ascii ''Willkommen''\<rparr>,
      \<lparr>index = 2, time = ascii ''00:05'', sub_text = ascii ''Das Wetter''\<rparr>]
   \<and> index (parseSubtitles (Some transcriptWithBareCue) ! 0) \<noteq> 0"
  unfolding transcriptWithBareCue_def by code_simp

text \<open>
  C3 (matches and context disjoint). In the same transcript with the token \<open>wetter\<close>, the
  matching cue is at position 1 and has index 2; \<open>createChunk\<close> removes from the context
  the cues whose index is a matching position, so the cue with index 1 is removed and the
  matching cue stays: it is in both lists of the window.
\<close>

theorem match_also_in_context_after_dropped_block:
  "getMatchingSubtitles toLowerCaseLatin (Some transcriptWithBareCue) False [\<lparr>token_value = ascii ''wetter''\<rparr>] =
     Some [\<lparr>matches = [\<lparr>index = 2, time = ascii ''00:05'', sub_text = ascii ''Das Wetter''\<rparr>],
            context_cues = [\<lparr>index = 2, time = ascii ''00:05'', sub_text = ascii ''Das Wetter''\<rparr>]\<rparr>]"
  unfolding transcriptWithBareCue_def by code_simp

lemma createChunk_disjoint_if_index_is_position:
  assumes "createChunk subs g n = Some w" "\<forall>p<length subs. index (subs ! p) = p"
  shows "set (matches w) \<inter> set (context_cues w) = {}"
proof -
  from assms(1) have g: "\<forall>idx\<in>set g. idx < length subs"
    by (auto simp: createChunk_def split: if_splits)
  from assms(1) have m: "matches w = map (\<lambda>idx. subs ! idx) g"
    and c: "\<forall>sub\<in>set (context_cues w). index sub \<notin> set g"
    by (auto simp: createChunk_def Let_def split: if_splits)
  from m g assms(2) have "\<forall>sub\<in>set (matches w). index sub \<in> set g" by auto
  with c show ?thesis by blast
qed

text \<open>
  C8 (short query). When the stored query has fewer than three characters, the search
  result has no tokens and its items are the loaded items, narrowed to the selected
  broadcasts when a selection exists; it is empty only when no loaded item passes that
  selection. The stored query is the trimmed content of the query field, so the same
  holds for an input whose trimmed length is below three.
\<close>

theorem short_query_passthrough:
  "(length (query this) < 3 \<longrightarrow>
      tokens (searchResult (search search_fn this)) = []
      \<and> items (searchResult (search search_fn this)) =
          (if selectedBroadcasts this = {} then data this
           else filter (\<lambda>item. title item \<in> selectedBroadcasts this) (data this))
      \<and> ((\<exists>item\<in>set (data this). selectedBroadcasts this = {} \<or> title item \<in> selectedBroadcasts this)
           \<longrightarrow> items (searchResult (search search_fn this)) \<noteq> []))
   \<and> (length (trim input) < 3 \<longrightarrow>
      tokens (searchResult (handleSearchInput search_fn input this)) = []
      \<and> items (searchResult (handleSearchInput search_fn input this)) =
          (if selectedBroadcasts this = {} then data this
           else filter (\<lambda>item. title item \<in> selectedBroadcasts this) (data this)))"
  by (auto simp: search_def handleSearchInput_def Let_def filter_empty_conv)

theorem short_query_passthrough_witness:
  "tokens (searchResult (search (\<lambda>q xs b. \<lparr>items = [], tokens = [\<lparr>token_value = q\<rparr>]\<rparr>) pageWithOneItem)) = []
   \<and> items (searchResult (search (\<lambda>q xs b. \<lparr>items = [], tokens = [\<lparr>token_value = q\<rparr>]\<rparr>) pageWithOneItem))
       = [\<lparr>title = ascii ''ZIB 1'', description = ascii ''Nachrichten''\<rparr>]
   \<and> items (searchResult (handleSearchInput (\<lambda>q xs b. \<lparr>items = [], tokens = [\<lparr>token_value = q\<rparr>]\<rparr>)
         (ascii ''  z  '') pageWithOneItem))
       = [\<lparr>title = ascii ''ZIB 1'', description = ascii ''Nachrichten''\<rparr>]"
proof -
  have q: "length (query pageWithOneItem) < 3"
    by (simp add: pageWithOneItem_def ascii_def)
  have t: "length (trim (ascii ''  z  '')) < 3"
    by code_simp
  have d: "data pageWithOneItem = [\<lparr>title = ascii ''ZIB 1'', description = ascii ''Nachrichten''\<rparr>]"
    and e: "selectedBroadcasts pageWithOneItem = {}"
    by (simp_all add: pageWithOneItem_def)
  from short_query_passthrough[of pageWithOneItem "\<lambda>q xs b. \<lparr>items = [], tokens = [\<lparr>token_value = q\<rparr>]\<rparr>"
      "ascii ''  z  ''"] q t
  show ?thesis by (simp only: d e simp_thms if_True)
qed

section \<open>Grouping matches into windows\<close>

lemma slice_js_nth: "slice_js xs a b = map (\<lambda>p. xs ! p) [a ..< min b (length xs)]"
  unfolding slice_drop_take
proof (rule nth_equalityI)
  show "length (drop a (take b xs)) = length (map (\<lambda>p. xs ! p) [a ..< min b (length xs)])"
    by simp
  fix i assume "i < length (drop a (take b xs))"
  then have i: "i < min b (length xs) - a" by (simp add: min.commute)
  then have lt: "a + i < min b (length xs)" by arith
  then have "drop a (take b xs) ! i = xs ! (a + i)" by simp
  also have "\<dots> = map (\<lambda>p. xs ! p) [a ..< min b (length xs)] ! i"
    using i nth_upt[OF lt] by (simp del: upt_Suc)
  finally show "drop a (take b xs) ! i = map (\<lambda>p. xs ! p) [a ..< min b (length xs)] ! i" .
qed

lemma createChunk_createdWindow:
  assumes "g \<noteq> []" "\<forall>i\<in>set g. i < length subs"
  shows "createChunk subs g contextSize = Some (createdWindow subs g)"
proof -
  have guard: "(g = [] \<or> (\<exists>idx\<in>set g. length subs \<le> idx)) = False"
    using assms by (auto simp: not_le)
  have "\<exists>w. createChunk subs g contextSize = Some w"
    unfolding createChunk_def Let_def by (simp only: guard if_False) blast
  then show ?thesis by (auto simp: createdWindow_def)
qed

lemma createChunk_specWindow:
  assumes "g \<noteq> []" "\<forall>i\<in>set g. i < length subs" "\<forall>p<length subs. index (subs ! p) = p"
  shows "createChunk subs g contextSize = Some (specWindow subs g)"
proof -
  from assms have n: "0 < length subs" by (cases g) auto
  have lo: "nat (max 0 (int (hd g) - int contextSize)) = hd g - contextSize" by simp
  have hi: "min (min (length subs - 1) (last g + contextSize) + 1) (length subs)
      = min (length subs) (last g + contextSize + 1)"
  proof (cases "length subs - 1 \<le> last g + contextSize")
    case True
    with n show ?thesis by (simp add: min_def)
  next
    case False
    with n show ?thesis by (simp add: min_def)
  qed
  have guard: "(g = [] \<or> (\<exists>idx\<in>set g. length subs \<le> idx)) = False"
    using assms by (auto simp: not_le)
  have flt: "filter (\<lambda>sub. index sub \<notin> set g) (map (\<lambda>p. subs ! p) ps)
      = map (\<lambda>p. subs ! p) (filter (\<lambda>p. p \<notin> set g) ps)" if "\<forall>p\<in>set ps. p < length subs" for ps
    using that assms(3) by (induction ps) simp_all
  have rng: "\<forall>p\<in>set [hd g - contextSize ..< min (length subs) (last g + contextSize + 1)]. p < length subs"
    by simp
  show ?thesis
    unfolding createChunk_def specWindow_def Let_def slice_js_nth
    by (simp only: lo hi guard if_False flt[OF rng])
qed

lemma createdWindow_specWindow:
  assumes "g \<noteq> []" "\<forall>i\<in>set g. i < length subs" "\<forall>p<length subs. index (subs ! p) = p"
  shows "createdWindow subs g = specWindow subs g"
  using createChunk_createdWindow[OF assms(1,2)] createChunk_specWindow[OF assms] by simp

lemma linkStep_good:
  assumes "goodGroups subs gs" "idx < length subs"
  shows "goodGroups subs (linkStep 10 gs idx)"
proof (cases gs rule: rev_cases)
  case Nil
  with assms show ?thesis by (simp add: goodGroups_def)
next
  case (snoc hs g)
  with assms show ?thesis by (auto simp: goodGroups_def linkStep_def)
qed

lemma groupStep_linkStep:
  assumes "goodGroups subs gs" "idx < length subs"
  shows "groupStep subs (walkState subs gs) idx = Some (walkState subs (linkStep 10 gs idx))"
proof (cases gs rule: rev_cases)
  case Nil
  with assms show ?thesis by (simp add: goodGroups_def)
next
  case (snoc hs g)
  with assms have g: "g \<noteq> []" "\<forall>i\<in>set g. i < length subs" by (auto simp: goodGroups_def)
  have s: "int (hd g) \<noteq> - 1" by simp
  show ?thesis
  proof (cases "idx \<le> last g + 10")
    case True
    with g s show ?thesis
      unfolding snoc by (simp add: groupStep_def walkState_def linkStep_def contextSize_def)
  next
    case False
    with g s createChunk_createdWindow[OF g] show ?thesis
      unfolding snoc
      by (simp add: groupStep_def walkState_def linkStep_def contextSize_def butlast_append)
  qed
qed

lemma groupWalk_linkStep:
  assumes "goodGroups subs gs" "\<forall>i\<in>set rest. i < length subs"
  shows "groupWalk subs (walkState subs gs) rest = Some (walkState subs (foldl (linkStep 10) gs rest))
     \<and> goodGroups subs (foldl (linkStep 10) gs rest)"
  using assms
proof (induction rest arbitrary: gs)
  case Nil
  then show ?case by simp
next
  case (Cons idx rest)
  from Cons.prems have idx: "idx < length subs" by simp
  note st = groupStep_linkStep[OF Cons.prems(1) idx]
  note gd = linkStep_good[OF Cons.prems(1) idx]
  from Cons.IH[OF gd] Cons.prems(2) st show ?case by simp
qed

lemma groupSubtitles_createdWindows:
  assumes "toks \<noteq> []"
  shows "groupSubtitles toLowerCase subs False toks =
     Some (map (createdWindow subs)
       (specGroups 10 (filter (\<lambda>p. matchesAnyToken toLowerCase toks (subs ! p)) [0 ..< length subs])))"
proof -
  let ?ms = "filter (\<lambda>p. matchesAnyToken toLowerCase toks (subs ! p)) [0 ..< length subs]"
  have srt: "sort ?ms = ?ms" by (intro sorted_sort_id sorted_filter[where f = "\<lambda>x. x", simplified]) simp
  show ?thesis
  proof (cases ?ms)
    case Nil
    then show ?thesis using assms by (simp add: groupSubtitles_def specGroups_def)
  next
    case (Cons i0 rest)
    have "\<forall>i\<in>set ?ms. i < length subs" by simp
    then have "\<forall>i\<in>set (i0 # rest). i < length subs" by (simp only: Cons)
    then have i0: "i0 < length subs" and rest: "\<forall>i\<in>set rest. i < length subs" by simp_all
    have first: "groupStep subs (- 1, [], []) i0 = Some (walkState subs [[i0]])"
      by (simp add: groupStep_def walkState_def)
    have good: "goodGroups subs [[i0]]" using i0 by (simp add: goodGroups_def)
    let ?gs = "foldl (linkStep 10) [[i0]] rest"
    from groupWalk_linkStep[OF good rest]
    have walk: "groupWalk subs (walkState subs [[i0]]) rest = Some (walkState subs ?gs)"
      and gd: "goodGroups subs ?gs" by simp_all
    have sg: "specGroups 10 (i0 # rest) = ?gs" by (simp add: specGroups_def linkStep_def)
    from gd obtain hs g where hg: "?gs = hs @ [g]" "g \<noteq> []" "\<forall>i\<in>set g. i < length subs"
      by (cases ?gs rule: rev_cases) (auto simp: goodGroups_def)
    have w: "groupWalk subs (- 1, [], []) (i0 # rest)
        = Some (int (hd g), g, map (createdWindow subs) hs)"
      using first walk by (simp add: hg(1) walkState_def)
    have u: "groupSubtitles toLowerCase subs False toks =
       (case groupWalk subs (- 1, [], []) (i0 # rest) of
          None \<Rightarrow> None
        | Some (currentChunkStart, currentChunkMatches, chunks) \<Rightarrow>
            if currentChunkMatches \<noteq> []
            then map_option (\<lambda>c. chunks @ [c]) (createChunk subs currentChunkMatches contextSize)
            else Some chunks)"
      unfolding groupSubtitles_def Let_def srt using assms by (simp add: Cons)
    have "groupSubtitles toLowerCase subs False toks = Some (map (createdWindow subs) (hs @ [g]))"
      unfolding u w using hg(2) createChunk_createdWindow[OF hg(2,3)] by simp
    then show ?thesis unfolding Cons sg hg(1) .
  qed
qed

lemma specGroups_snoc: "specGroups gap (idxs @ [i]) = linkStep gap (specGroups gap idxs) i"
  by (simp add: specGroups_def)

lemma specGroups_last:
  "idxs \<noteq> [] \<Longrightarrow> specGroups gap idxs \<noteq> [] \<and> last (last (specGroups gap idxs)) = last idxs"
  by (induction idxs rule: rev_induct) (auto simp: specGroups_snoc linkStep_def)

lemma specGroups_good:
  "idxs \<noteq> [] \<Longrightarrow> \<forall>i\<in>set idxs. i < length subs \<Longrightarrow> goodGroups subs (specGroups 10 idxs)"
proof (induction idxs rule: rev_induct)
  case Nil
  then show ?case by simp
next
  case (snoc i idxs)
  show ?case
  proof (cases "idxs = []")
    case True
    with snoc.prems show ?thesis by (simp add: specGroups_def linkStep_def goodGroups_def)
  next
    case False
    with snoc have "goodGroups subs (specGroups 10 idxs)" "i < length subs" by simp_all
    then show ?thesis unfolding specGroups_snoc by (rule linkStep_good)
  qed
qed

lemma groupSubtitles_specGroups:
  assumes "toks \<noteq> []" "\<forall>p<length subs. index (subs ! p) = p"
  shows "groupSubtitles toLowerCase subs False toks =
     Some (map (specWindow subs)
       (specGroups 10 (filter (\<lambda>p. matchesAnyToken toLowerCase toks (subs ! p)) [0 ..< length subs])))"
proof -
  let ?ms = "filter (\<lambda>p. matchesAnyToken toLowerCase toks (subs ! p)) [0 ..< length subs]"
  have "map (createdWindow subs) (specGroups 10 ?ms) = map (specWindow subs) (specGroups 10 ?ms)"
  proof (cases "?ms = []")
    case True
    then show ?thesis by (simp add: specGroups_def)
  next
    case False
    have "\<forall>i\<in>set ?ms. i < length subs" by simp
    from specGroups_good[OF False this]
    have "\<forall>g\<in>set (specGroups 10 ?ms). g \<noteq> [] \<and> (\<forall>i\<in>set g. i < length subs)"
      by (simp add: goodGroups_def)
    then show ?thesis
      by (intro map_cong refl createdWindow_specWindow assms(2)) blast+
  qed
  with groupSubtitles_createdWindows[OF assms(1), of toLowerCase subs] show ?thesis by simp
qed

lemma specGroups_concat: "concat (specGroups gap idxs) = idxs"
proof (induction idxs rule: rev_induct)
  case Nil
  then show ?case by (simp add: specGroups_def)
next
  case (snoc i idxs)
  have "concat (linkStep gap (specGroups gap idxs) i) = concat (specGroups gap idxs) @ [i]"
    by (cases "specGroups gap idxs" rule: rev_cases) (simp_all add: linkStep_def)
  with snoc.IH show ?case by (simp only: specGroups_snoc)
qed

lemma matchesAnyToken_scenarioCue:
  "matchesAnyToken toLowerCaseLatin [\<lparr>token_value = ascii ''x''\<rparr>] (scenarioCue ms p) = (p \<in> set ms)"
proof -
  have "includes_str (toLowerCaseLatin (ascii ''x'')) (ascii ''x'')"
    and "\<not> includes_str (toLowerCaseLatin (ascii ''y'')) (ascii ''x'')"
    by code_simp+
  then show ?thesis by (simp add: matchesAnyToken_def scenarioCue_def)
qed

lemma scenarioCues_nth: "p < n \<Longrightarrow> scenarioCues n ms ! p = scenarioCue ms p"
  by (simp add: scenarioCues_def del: upt_Suc)

lemma scenario_matching_positions:
  "filter (\<lambda>p. matchesAnyToken toLowerCaseLatin [\<lparr>token_value = ascii ''x''\<rparr>] (scenarioCues n ms ! p))
     [0 ..< length (scenarioCues n ms)] = filter (\<lambda>p. p \<in> set ms) [0 ..< n]"
proof -
  have "length (scenarioCues n ms) = n" by (simp add: scenarioCues_def)
  have "filter (\<lambda>p. matchesAnyToken toLowerCaseLatin [\<lparr>token_value = ascii ''x''\<rparr>] (scenarioCues n ms ! p))
      [0 ..< n] = filter (\<lambda>p. p \<in> set ms) [0 ..< n]"
    by (rule filter_cong) (simp_all add: scenarioCues_nth matchesAnyToken_scenarioCue del: upt_Suc)
  then show ?thesis by (simp only: \<open>length (scenarioCues n ms) = n\<close>)
qed

lemma specWindow_scenarioCues:
  assumes "\<forall>p\<in>set g. p < n"
  shows "specWindow (scenarioCues n ms) g =
     \<lparr>matches = map (scenarioCue ms) g,
      context_cues = map (scenarioCue ms)
        (filter (\<lambda>p. p \<notin> set g) [hd g - contextSize ..< min n (last g + contextSize + 1)])\<rparr>"
proof -
  have len: "length (scenarioCues n ms) = n" by (simp add: scenarioCues_def)
  have a: "map (\<lambda>p. scenarioCues n ms ! p) g = map (scenarioCue ms) g"
    using assms by (simp add: scenarioCues_nth)
  have b: "map (\<lambda>p. scenarioCues n ms ! p)
        (filter (\<lambda>p. p \<notin> set g) [hd g - contextSize ..< min n (last g + contextSize + 1)])
      = map (scenarioCue ms)
        (filter (\<lambda>p. p \<notin> set g) [hd g - contextSize ..< min n (last g + contextSize + 1)])"
    by (rule map_cong) (simp_all add: scenarioCues_nth del: upt_Suc)
  show ?thesis unfolding specWindow_def len a b ..
qed

lemma scenarioCues_index: "\<forall>p<length (scenarioCues n ms). index (scenarioCues n ms ! p) = p"
  by (simp add: scenarioCues_def scenarioCue_def del: upt_Suc)

lemma scenario_groupSubtitles:
  "groupSubtitles toLowerCaseLatin (scenarioCues n ms) False [\<lparr>token_value = ascii ''x''\<rparr>] =
     Some (map (specWindow (scenarioCues n ms)) (specGroups 10 (filter (\<lambda>p. p \<in> set ms) [0 ..< n])))"
proof -
  have "[\<lparr>token_value = ascii ''x''\<rparr>] \<noteq> []" by simp
  from groupSubtitles_specGroups[OF this scenarioCues_index, of toLowerCaseLatin n ms]
  show ?thesis by (simp only: scenario_matching_positions)
qed

lemma scenario_single_match:
  "groupSubtitles toLowerCaseLatin (scenarioCues 21 [10]) False [\<lparr>token_value = ascii ''x''\<rparr>] =
     Some [\<lparr>matches = map (scenarioCue [10]) [10],
            context_cues = map (scenarioCue [10]) [5, 6, 7, 8, 9, 11, 12, 13, 14, 15]\<rparr>]"
proof -
  have m: "filter (\<lambda>p. p \<in> set [10]) [0 ..< 21] = [10::nat]" by code_simp
  have g: "specGroups 10 [10] = [[10]]" by code_simp
  have c: "filter (\<lambda>p. p \<notin> set [10]) [hd [10] - contextSize ..< min 21 (last [10] + contextSize + 1)]
      = [5, 6, 7, 8, 9, 11, 12, 13, 14, 15::nat]" by code_simp
  have w: "specWindow (scenarioCues 21 [10]) [10] =
      \<lparr>matches = map (scenarioCue [10]) [10],
       context_cues = map (scenarioCue [10]) [5, 6, 7, 8, 9, 11, 12, 13, 14, 15]\<rparr>"
    by (subst specWindow_scenarioCues) (simp_all only: c, simp)
  show ?thesis by (simp only: scenario_groupSubtitles m g w list.map)
qed

lemma scenario_match_eight_away:
  "groupSubtitles toLowerCaseLatin (scenarioCues 36 [10, 18]) False [\<lparr>token_value = ascii ''x''\<rparr>] =
     Some [\<lparr>matches = map (scenarioCue [10, 18]) [10, 18],
            context_cues = map (scenarioCue [10, 18])
              [5, 6, 7, 8, 9, 11, 12, 13, 14, 15, 16, 17, 19, 20, 21, 22, 23]\<rparr>]"
proof -
  have m: "filter (\<lambda>p. p \<in> set [10, 18]) [0 ..< 36] = [10, 18::nat]" by code_simp
  have g: "specGroups 10 [10, 18] = [[10, 18]]" by code_simp
  have c: "filter (\<lambda>p. p \<notin> set [10, 18]) [hd [10, 18] - contextSize ..< min 36 (last [10, 18] + contextSize + 1)]
      = [5, 6, 7, 8, 9, 11, 12, 13, 14, 15, 16, 17, 19, 20, 21, 22, 23::nat]" by code_simp
  have w: "specWindow (scenarioCues 36 [10, 18]) [10, 18] =
      \<lparr>matches = map (scenarioCue [10, 18]) [10, 18],
       context_cues = map (scenarioCue [10, 18])
         [5, 6, 7, 8, 9, 11, 12, 13, 14, 15, 16, 17, 19, 20, 21, 22, 23]\<rparr>"
    by (subst specWindow_scenarioCues) (simp_all only: c, simp)
  show ?thesis by (simp only: scenario_groupSubtitles m g w list.map)
qed

lemma scenario_match_twenty_away:
  "groupSubtitles toLowerCaseLatin (scenarioCues 36 [10, 30]) False [\<lparr>token_value = ascii ''x''\<rparr>] =
     Some [\<lparr>matches = map (scenarioCue [10, 30]) [10],
            context_cues = map (scenarioCue [10, 30]) [5, 6, 7, 8, 9, 11, 12, 13, 14, 15]\<rparr>,
           \<lparr>matches = map (scenarioCue [10, 30]) [30],
            context_cues = map (scenarioCue [10, 30]) [25, 26, 27, 28, 29, 31, 32, 33, 34, 35]\<rparr>]"
proof -
  have m: "filter (\<lambda>p. p \<in> set [10, 30]) [0 ..< 36] = [10, 30::nat]" by code_simp
  have g: "specGroups 10 [10, 30] = [[10], [30]]" by code_simp
  have c1: "filter (\<lambda>p. p \<notin> set [10]) [hd [10] - contextSize ..< min 36 (last [10] + contextSize + 1)]
      = [5, 6, 7, 8, 9, 11, 12, 13, 14, 15::nat]" by code_simp
  have c2: "filter (\<lambda>p. p \<notin> set [30]) [hd [30] - contextSize ..< min 36 (last [30] + contextSize + 1)]
      = [25, 26, 27, 28, 29, 31, 32, 33, 34, 35::nat]" by code_simp
  have w1: "specWindow (scenarioCues 36 [10, 30]) [10] =
      \<lparr>matches = map (scenarioCue [10, 30]) [10],
       context_cues = map (scenarioCue [10, 30]) [5, 6, 7, 8, 9, 11, 12, 13, 14, 15]\<rparr>"
    by (subst specWindow_scenarioCues) (simp_all only: c1, simp)
  have w2: "specWindow (scenarioCues 36 [10, 30]) [30] =
      \<lparr>matches = map (scenarioCue [10, 30]) [30],
       context_cues = map (scenarioCue [10, 30]) [25, 26, 27, 28, 29, 31, 32, 33, 34, 35]\<rparr>"
    by (subst specWindow_scenarioCues) (simp_all only: c2, simp)
  show ?thesis by (simp only: scenario_groupSubtitles m g w1 w2 list.map)
qed

lemma snippet_grouping_if_index_is_position:
  "(toks \<noteq> [] \<and> (\<forall>p<length subs. index (subs ! p) = p) \<longrightarrow>
      groupSubtitles toLowerCase subs False toks =
        Some (map (specWindow subs)
          (specGroups 10 (filter (\<lambda>p. matchesAnyToken toLowerCase toks (subs ! p)) [0 ..< length subs]))))
   \<and> 2 * contextSize = 10
   \<and> specGroups 10 (idxs @ [i]) =
        (if idxs = [] then [[i]]
         else if i \<le> last idxs + 10
              then butlast (specGroups 10 idxs) @ [last (specGroups 10 idxs) @ [i]]
              else specGroups 10 idxs @ [[i]])
   \<and> concat (specGroups 10 idxs) = idxs"
proof (intro conjI impI)
  assume "toks \<noteq> [] \<and> (\<forall>p<length subs. index (subs ! p) = p)"
  then show "groupSubtitles toLowerCase subs False toks =
        Some (map (specWindow subs)
          (specGroups 10 (filter (\<lambda>p. matchesAnyToken toLowerCase toks (subs ! p)) [0 ..< length subs])))"
    by (intro groupSubtitles_specGroups) simp_all
next
  show "2 * contextSize = 10" by (simp add: contextSize_def)
next
  show "specGroups 10 (idxs @ [i]) =
        (if idxs = [] then [[i]]
         else if i \<le> last idxs + 10
              then butlast (specGroups 10 idxs) @ [last (specGroups 10 idxs) @ [i]]
              else specGroups 10 idxs @ [[i]])"
  proof (cases "idxs = []")
    case True
    then show ?thesis by (simp add: specGroups_def linkStep_def)
  next
    case False
    from specGroups_last[OF this, of 10] False show ?thesis
      by (simp add: specGroups_snoc linkStep_def)
  qed
next
  show "concat (specGroups 10 idxs) = idxs" by (rule specGroups_concat)
qed

text \<open>
  C9 (grouping threshold and window bounds). The walk groups the matching positions as
  claimed for every cue sequence (\<open>groupSubtitles_createdWindows\<close>), and for cues whose
  index is their position the windows are the claimed ones, the three scenarios included
  (\<open>snippet_grouping_if_index_is_position\<close>, \<open>scenario_single_match\<close>,
  \<open>scenario_match_eight_away\<close>, \<open>scenario_match_twenty_away\<close>). After a dropped block the
  window is not the claimed one: in the transcript whose first cue has no identifier
  line, with the token \<open>wetter\<close>, the only match is at position 1 and the only group is
  \<open>[1]\<close>; the window over the positions 0..1 has the cue at position 0 as its context,
  while the window returned has the matching cue as context and does not contain the cue
  at position 0.
\<close>

theorem window_misses_position_after_dropped_block:
  "filter (\<lambda>p. matchesAnyToken toLowerCaseLatin [\<lparr>token_value = ascii ''wetter''\<rparr>]
             (parseSubtitles (Some transcriptWithBareCue) ! p))
      [0 ..< length (parseSubtitles (Some transcriptWithBareCue))] = [1]
   \<and> map (specWindow (parseSubtitles (Some transcriptWithBareCue))) (specGroups 10 [1]) =
       [\<lparr>matches = [\<lparr>index = 2, time = ascii ''00:05'', sub_text = ascii ''Das Wetter''\<rparr>],
         context_cues = [\<lparr>index = 1, time = ascii ''00:03'', sub_text = ascii ''Willkommen''\<rparr>]\<rparr>]
   \<and> groupSubtitles toLowerCaseLatin (parseSubtitles (Some transcriptWithBareCue)) False
         [\<lparr>token_value = ascii ''wetter''\<rparr>] =
       Some [\<lparr>matches = [\<lparr>index = 2, time = ascii ''00:05'', sub_text = ascii ''Das Wetter''\<rparr>],
              context_cues = [\<lparr>index = 2, time = ascii ''00:05'', sub_text = ascii ''Das Wetter''\<rparr>]\<rparr>]"
  unfolding transcriptWithBareCue_def by code_simp

end
